theory Spec2Isabelle
  imports Main "HOL-Library.AList" "HOL-Library.Sublist"
begin

section \<open>The topic router of package pubsub\<close>

text \<open>
  The Go type is
  \<^verbatim>\<open>type router[T any] struct {
      subscribers map[chan<- T]struct{}
      topics      map[string]router[T]
  }\<close>
  A subscriber handle is a send-only channel; \<open>nil\<close> is a legal value of that type, so
  the handle type has a constructor for it. Channels are compared by identity, which is
  the number carried by \<open>Chan\<close>.

  Both fields are Go maps. A map is kept here as the list of its entries in the order
  in which a \<open>range\<close> loop would visit them: the language leaves that order open, and
  a statement proved for every router covers every order. A map has no duplicate keys;
  that is the predicate \<open>well_formed\<close> below, which every router built by the code satisfies.

  A Go map value is a reference. The local copy \<open>r2\<close> that \<open>subscribe\<close>,
  \<open>unsubscribe\<close> and \<open>publish\<close> take out of \<open>r.topics\<close> shares both maps
  with the stored entry, so a change made through \<open>r2\<close> is a change of the child
  itself. The model returns the child as the call leaves it and stores it back under
  the same key.
\<close>

datatype chan = NilChan | Chan nat

datatype router = Router (subscribers: "chan list") (topics: "(string \<times> router) list")

datatype error = DuplicateSubscription

text \<open>\<open>make(map...)\<close> twice: the node created for an unseen segment, and the root.\<close>

definition new_router :: router where
  "new_router = Router [] []"

text \<open>
  \<open>router.subscribe\<close>. The result is the returned error (\<open>None\<close> for \<open>nil\<close>) and
  the router after the call. \<open>List.insert\<close> is the map store
  \<open>r.subscribers[ch] = struct{}{}\<close>; \<open>AList.update\<close> is the store
  \<open>r.topics[topic[0]] = r2\<close>.
\<close>

fun subscribe :: "router \<Rightarrow> chan \<Rightarrow> string list \<Rightarrow> error option \<times> router" where
  "subscribe r ch [] =
     (if ch \<in> set (subscribers r) then (Some DuplicateSubscription, r)
      else (None, Router (List.insert ch (subscribers r)) (topics r)))"
| "subscribe r ch (t # ts) =
     (case map_of (topics r) t of
        Some r2 \<Rightarrow>
          (case subscribe r2 ch ts of
             (err, r2') \<Rightarrow> (err, Router (subscribers r) (AList.update t r2' (topics r))))
      | None \<Rightarrow>
          (case subscribe new_router ch ts of
             (err, r2') \<Rightarrow> (err, Router (subscribers r) (AList.update t r2' (topics r)))))"

text \<open>\<open>router.unsubscribe\<close>; \<open>removeAll\<close> is \<open>delete(r.subscribers, ch)\<close>.\<close>

fun unsubscribe :: "router \<Rightarrow> chan \<Rightarrow> string list \<Rightarrow> router" where
  "unsubscribe r ch [] = Router (removeAll ch (subscribers r)) (topics r)"
| "unsubscribe r ch (t # ts) =
     (case map_of (topics r) t of
        None \<Rightarrow> r
      | Some r2 \<Rightarrow> Router (subscribers r) (AList.update t (unsubscribe r2 ch ts) (topics r)))"

subsection \<open>Observing a router\<close>

text \<open>The node reached from \<open>r\<close> along a path, if every segment has a child.\<close>

fun node_at :: "router \<Rightarrow> string list \<Rightarrow> router option" where
  "node_at r [] = Some r"
| "node_at r (t # ts) =
     (case map_of (topics r) t of None \<Rightarrow> None | Some r2 \<Rightarrow> node_at r2 ts)"

text \<open>Handle \<open>ch\<close> is registered at exactly path \<open>p\<close>.\<close>

definition registered :: "router \<Rightarrow> chan \<Rightarrow> string list \<Rightarrow> bool" where
  "registered r ch p =
     (case node_at r p of None \<Rightarrow> False | Some n \<Rightarrow> ch \<in> set (subscribers n))"

text \<open>No key occurs twice in a map, at any node.\<close>

fun well_formed :: "router \<Rightarrow> bool"
  and well_formed_topics :: "(string \<times> router) list \<Rightarrow> bool" where
  "well_formed (Router subs tops) = (distinct subs \<and> distinct (map fst tops) \<and> well_formed_topics tops)"
| "well_formed_topics [] = True"
| "well_formed_topics (e # es) = (well_formed (snd e) \<and> well_formed_topics es)"

text \<open>
  The child that \<open>subscribe\<close> descends into: the stored one, or the fresh node it
  creates when the segment is new.
\<close>

definition child :: "router \<Rightarrow> string \<Rightarrow> router" where
  "child r t = (case map_of (topics r) t of Some r2 \<Rightarrow> r2 | None \<Rightarrow> new_router)"

text \<open>
  The subscribers of the nodes that \<open>publish\<close> walks through for a path, root first,
  and all subscribers of a router, in the order in which \<open>close\<close> walks it.
\<close>

fun path_subscribers :: "router \<Rightarrow> string list \<Rightarrow> chan list" where
  "path_subscribers r [] = subscribers r"
| "path_subscribers r (t # ts) =
     subscribers r @
     (case map_of (topics r) t of None \<Rightarrow> [] | Some r2 \<Rightarrow> path_subscribers r2 ts)"

fun handles :: "router \<Rightarrow> chan list"
  and handles_topics :: "(string \<times> router) list \<Rightarrow> chan list" where
  "handles (Router subs tops) = subs @ handles_topics tops"
| "handles_topics [] = []"
| "handles_topics (e # es) = handles (snd e) @ handles_topics es"

section \<open>Channels\<close>

text \<open>
  The router sends on subscriber channels and closes them; what that does depends on
  the state of each channel, which the router does not own. A channel is described by
  the values it holds (\<open>buf\<close>), by how many it can hold before a send would have to
  wait (\<open>cap\<close>; a receiver parked on an unbuffered channel counts as one free slot),
  and by whether it has been closed. The state of all channels is a function from
  channel identities. It does not change by itself during one call of the router.

  Go's rules for the two statements the router uses:
  \<^item> \<^verbatim>\<open>select { case ch <- v: default: }\<close> on a \<open>nil\<close> channel takes the default
    branch (a send on \<open>nil\<close> is never ready); on a closed channel the send is chosen
    and panics; on an open channel the value is enqueued if there is room, and
    otherwise the default branch drops it.
  \<^item> \<^verbatim>\<open>close(ch)\<close> panics on a \<open>nil\<close> channel and on a closed one, and closes an
    open one.
  A run-time panic ends the call (and the program); it is the first component of every
  result. The second component lists the channel operations that completed, in order.
\<close>

record 'v chanstate =
  buf :: "'v list"
  cap :: nat
  closed :: bool

type_synonym 'v chans = "nat \<Rightarrow> 'v chanstate"

datatype panic = SendOnClosedChannel | CloseOfNilChannel | CloseOfClosedChannel

datatype 'v event = Sent chan 'v | Dropped chan 'v | Closed chan | Done "error option"

fun is_closed :: "'v chans \<Rightarrow> chan \<Rightarrow> bool" where
  "is_closed cs NilChan = False"
| "is_closed cs (Chan i) = closed (cs i)"

text \<open>A send on \<open>ch\<close> would go through at once.\<close>

fun ready :: "'v chans \<Rightarrow> chan \<Rightarrow> bool" where
  "ready cs NilChan = False"
| "ready cs (Chan i) = (\<not> closed (cs i) \<and> length (buf (cs i)) < cap (cs i))"

fun try_send :: "chan \<Rightarrow> 'v \<Rightarrow> 'v chans \<Rightarrow> panic option \<times> 'v event list \<times> 'v chans" where
  "try_send NilChan v cs = (None, [Dropped NilChan v], cs)"
| "try_send (Chan i) v cs =
     (if closed (cs i) then (Some SendOnClosedChannel, [], cs)
      else if length (buf (cs i)) < cap (cs i)
      then (None, [Sent (Chan i) v], cs(i := (cs i)\<lparr>buf := buf (cs i) @ [v]\<rparr>))
      else (None, [Dropped (Chan i) v], cs))"

fun close_chan :: "chan \<Rightarrow> 'v chans \<Rightarrow> panic option \<times> 'v event list \<times> 'v chans" where
  "close_chan NilChan cs = (Some CloseOfNilChannel, [], cs)"
| "close_chan (Chan i) cs =
     (if closed (cs i) then (Some CloseOfClosedChannel, [], cs)
      else (None, [Closed (Chan i)], cs(i := (cs i)\<lparr>closed := True\<rparr>)))"

section \<open>Publish and close\<close>

text \<open>The loop \<^verbatim>\<open>for ch := range r.subscribers { select { case ch <- v: default: } }\<close>.\<close>

fun send_each :: "chan list \<Rightarrow> 'v \<Rightarrow> 'v chans \<Rightarrow> panic option \<times> 'v event list \<times> 'v chans" where
  "send_each [] v cs = (None, [], cs)"
| "send_each (ch # chs) v cs =
     (case try_send ch v cs of
        (Some p, evs, cs') \<Rightarrow> (Some p, evs, cs')
      | (None, evs, cs') \<Rightarrow>
          (case send_each chs v cs' of (p, evs', cs'') \<Rightarrow> (p, evs @ evs', cs'')))"

text \<open>
  \<open>router.publish\<close>. Like \<open>subscribe\<close> and \<open>unsubscribe\<close> it is a method on
  \<open>*router\<close> that calls itself on the copy \<open>r2\<close>, which shares its maps with
  the entry stored in \<open>r.topics\<close>. So it is given the same shape: the result
  carries the router after the call, and the child as the inner call leaves it is
  stored back under its key. That the router comes back as it went in is then a
  property of the walk, not of the result type.
\<close>

fun publish ::
  "router \<Rightarrow> 'v \<Rightarrow> string list \<Rightarrow> 'v chans \<Rightarrow> panic option \<times> 'v event list \<times> router \<times> 'v chans" where
  "publish r v [] cs =
     (case send_each (subscribers r) v cs of (p, evs, cs') \<Rightarrow> (p, evs, r, cs'))"
| "publish r v (t # ts) cs =
     (case send_each (subscribers r) v cs of
        (Some p, evs, cs') \<Rightarrow> (Some p, evs, r, cs')
      | (None, evs, cs') \<Rightarrow>
          (case map_of (topics r) t of
             None \<Rightarrow> (None, evs, r, cs')
           | Some r2 \<Rightarrow>
               (case publish r2 v ts cs' of
                  (p, evs', r2', cs'') \<Rightarrow>
                    (p, evs @ evs', Router (subscribers r) (AList.update t r2' (topics r)), cs''))))"

text \<open>
  The first loop of \<open>router.close\<close>. The map \<open>closed\<close> that the Go code passes down
  and writes to is only ever asked for membership, so it is a set; it is passed in and
  handed back.
\<close>

fun close_each ::
  "chan list \<Rightarrow> chan set \<Rightarrow> 'v chans \<Rightarrow> panic option \<times> 'v event list \<times> chan set \<times> 'v chans" where
  "close_each [] cl cs = (None, [], cl, cs)"
| "close_each (ch # chs) cl cs =
     (if ch \<in> cl then close_each chs cl cs
      else
        (case close_chan ch cs of
           (Some p, evs, cs') \<Rightarrow> (Some p, evs, insert ch cl, cs')
         | (None, evs, cs') \<Rightarrow>
             (case close_each chs (insert ch cl) cs' of
                (p, evs', cl', cs'') \<Rightarrow> (p, evs @ evs', cl', cs''))))"

text \<open>\<open>router.close\<close>, and its second loop \<^verbatim>\<open>for _, r2 := range r.topics\<close>.\<close>

fun close ::
  "router \<Rightarrow> chan set \<Rightarrow> 'v chans \<Rightarrow> panic option \<times> 'v event list \<times> chan set \<times> 'v chans"
  and close_topics ::
  "(string \<times> router) list \<Rightarrow> chan set \<Rightarrow> 'v chans \<Rightarrow>
     panic option \<times> 'v event list \<times> chan set \<times> 'v chans" where
  "close (Router subs tops) cl cs =
     (case close_each subs cl cs of
        (Some p, evs, cl', cs') \<Rightarrow> (Some p, evs, cl', cs')
      | (None, evs, cl', cs') \<Rightarrow>
          (case close_topics tops cl' cs' of
             (p, evs', cl'', cs'') \<Rightarrow> (p, evs @ evs', cl'', cs'')))"
| "close_topics [] cl cs = (None, [], cl, cs)"
| "close_topics (e # es) cl cs =
     (case close (snd e) cl cs of
        (Some p, evs, cl', cs') \<Rightarrow> (Some p, evs, cl', cs')
      | (None, evs, cl', cs') \<Rightarrow>
          (case close_topics es cl' cs' of
             (p, evs', cl'', cs'') \<Rightarrow> (p, evs @ evs', cl'', cs'')))"

subsection \<open>Reading a result\<close>

text \<open>The sends that were tried, and the number of times a channel was closed.\<close>

fun offers :: "'v event list \<Rightarrow> (chan \<times> 'v) list" where
  "offers [] = []"
| "offers (Sent ch v # evs) = (ch, v) # offers evs"
| "offers (Dropped ch v # evs) = (ch, v) # offers evs"
| "offers (e # evs) = offers evs"

fun closes :: "'v event list \<Rightarrow> chan list" where
  "closes [] = []"
| "closes (Closed ch # evs) = ch # closes evs"
| "closes (e # evs) = closes evs"

text \<open>
  A channel after \<open>n\<close> non-blocking sends of \<open>v\<close>: the first ones fill the free
  slots, the others are dropped.
\<close>

definition after_offers :: "nat \<Rightarrow> 'v \<Rightarrow> 'v chanstate \<Rightarrow> 'v chanstate" where
  "after_offers n v c = c\<lparr>buf := buf c @ replicate (min n (cap c - length (buf c))) v\<rparr>"

section \<open>The broker loop\<close>

text \<open>
  \<open>Process\<close> owns the router. Callers reach it through three command channels and the
  exit channel; what the loop sees is the sequence of commands its \<open>select\<close> picks.
  Each command is answered on its own \<open>done\<close> channel, which is the event \<open>Done\<close>.
  After the exit signal the loop closes the router's channels and returns; commands
  behind it are never served. A panic ends the loop.
\<close>

datatype 'v command =
  Publish 'v "string list"
| Subscribe chan "string list"
| Unsubscribe chan "string list"
| Exit

fun serve ::
  "'v command \<Rightarrow> router \<Rightarrow> 'v chans \<Rightarrow> panic option \<times> 'v event list \<times> router \<times> 'v chans" where
  "serve (Publish v topic) rr cs =
     (case publish rr v topic cs of
        (Some p, evs, rr', cs') \<Rightarrow> (Some p, evs, rr', cs')
      | (None, evs, rr', cs') \<Rightarrow> (None, evs @ [Done None], rr', cs'))"
| "serve (Subscribe ch topic) rr cs =
     (case subscribe rr ch topic of (err, rr') \<Rightarrow> (None, [Done err], rr', cs))"
| "serve (Unsubscribe ch topic) rr cs = (None, [Done None], unsubscribe rr ch topic, cs)"
| "serve Exit rr cs =
     (case close rr {} cs of (p, evs, cl, cs') \<Rightarrow> (p, evs, rr, cs'))"

fun loop ::
  "'v command list \<Rightarrow> router \<Rightarrow> 'v chans \<Rightarrow> panic option \<times> 'v event list \<times> router \<times> 'v chans" where
  "loop [] rr cs = (None, [], rr, cs)"
| "loop (Exit # cmds) rr cs = serve Exit rr cs"
| "loop (c # cmds) rr cs =
     (case serve c rr cs of
        (Some p, evs, rr', cs') \<Rightarrow> (Some p, evs, rr', cs')
      | (None, evs, rr', cs') \<Rightarrow>
          (case loop cmds rr' cs' of (p, evs', rr'', cs'') \<Rightarrow> (p, evs @ evs', rr'', cs'')))"

definition Process ::
  "'v command list \<Rightarrow> 'v chans \<Rightarrow> panic option \<times> 'v event list \<times> router \<times> 'v chans" where
  "Process cmds cs = loop cmds new_router cs"

section \<open>Example states\<close>

text \<open>
  A router with six registrations, and channel states to go with it: every channel is
  open, empty and has room for one value, except channel 1, which is full.
\<close>

definition open_chans :: "nat chans" where
  "open_chans = (\<lambda>i. \<lparr>buf = [], cap = 1, closed = False\<rparr>)"

definition example_router :: router where
  "example_router =
     Router [Chan 0, NilChan]
       [(''a'', Router [Chan 1, Chan 0] [(''b'', Router [Chan 2] [])]),
        (''c'', Router [Chan 3] [])]"

definition example_chans :: "nat chans" where
  "example_chans = open_chans(1 := \<lparr>buf = [5], cap = 1, closed = False\<rparr>)"

text \<open>The same router without the \<open>nil\<close> handle.\<close>

definition example_router2 :: router where
  "example_router2 =
     Router [Chan 0]
       [(''a'', Router [Chan 1, Chan 0] [(''b'', Router [Chan 2] [])]),
        (''c'', Router [Chan 3] [])]"

section \<open>Subscribe and unsubscribe\<close>

lemma registered_Nil: "registered r ch [] = (ch \<in> set (subscribers r))"
  by (simp add: registered_def)

lemma registered_Cons:
  "registered r ch (t # ts) =
     (case map_of (topics r) t of None \<Rightarrow> False | Some r2 \<Rightarrow> registered r2 ch ts)"
  by (simp add: registered_def split: option.splits)

lemma registered_new_router: "\<not> registered new_router ch p"
  by (cases p) (simp_all add: registered_Nil registered_Cons new_router_def)

lemma subscribe_error:
  "fst (subscribe r ch p) = (if registered r ch p then Some DuplicateSubscription else None)"
proof (induction p arbitrary: r)
  case Nil
  show ?case by (simp add: registered_Nil)
next
  case (Cons t ts)
  show ?case
  proof (cases "map_of (topics r) t")
    case None
    have "fst (subscribe new_router ch ts) = None"
      using Cons.IH [of new_router] by (simp add: registered_new_router)
    with None show ?thesis
      by (auto simp: registered_Cons split: prod.splits)
  next
    case (Some r2)
    with Cons.IH [of r2] show ?thesis
      by (auto simp: registered_Cons split: prod.splits)
  qed
qed

lemma subscribe_duplicate_router:
  "registered r ch p \<Longrightarrow> snd (subscribe r ch p) = r"
proof (induction p arbitrary: r)
  case Nil
  then show ?case by (simp add: registered_Nil)
next
  case (Cons t ts)
  from Cons.prems obtain r2 where r2: "map_of (topics r) t = Some r2" and reg: "registered r2 ch ts"
    by (auto simp: registered_Cons split: option.splits)
  from Cons.IH [OF reg] have "snd (subscribe r2 ch ts) = r2" .
  with r2 show ?case
    by (cases r) (auto simp: update_triv split: prod.splits)
qed

lemma subscribe_Cons:
  "subscribe r ch (t # ts) =
     (fst (subscribe (child r t) ch ts),
      Router (subscribers r) (AList.update t (snd (subscribe (child r t) ch ts)) (topics r)))"
  by (simp add: child_def split: option.splits prod.splits)

lemma registered_child:
  "registered r ch (t # ts) = registered (child r t) ch ts"
  by (simp add: registered_Cons child_def registered_new_router split: option.splits)

lemma registered_subscribe:
  "registered (snd (subscribe r ch p)) c q = (registered r c q \<or> c = ch \<and> q = p)"
proof (induction p arbitrary: r q)
  case Nil
  show ?case
    by (cases q) (auto simp: registered_Nil registered_Cons)
next
  case (Cons t ts)
  show ?case
  proof (cases q)
    case Nil
    then show ?thesis by (simp add: subscribe_Cons registered_Nil del: subscribe.simps(2))
  next
    case (Cons t' qs)
    show ?thesis
    proof (cases "t' = t")
      case True
      have "registered (snd (subscribe r ch (t # ts))) c (t # qs)
            = registered (snd (subscribe (child r t) ch ts)) c qs"
        by (simp add: subscribe_Cons registered_Cons update_conv' del: subscribe.simps(2))
      also have "\<dots> = (registered (child r t) c qs \<or> c = ch \<and> qs = ts)"
        by (rule Cons.IH)
      finally show ?thesis
        using True Cons by (simp add: registered_child)
    next
      case False
      then show ?thesis
        using Cons by (simp add: subscribe_Cons registered_Cons update_conv' del: subscribe.simps(2))
    qed
  qed
qed

lemma node_at_subscribe:
  "node_at r q \<noteq> None \<Longrightarrow> node_at (snd (subscribe r ch p)) q \<noteq> None"
proof (induction p arbitrary: r q)
  case Nil
  then show ?case by (cases q) auto
next
  case (Cons t ts)
  show ?case
  proof (cases q)
    case Nil
    then show ?thesis by (simp add: subscribe_Cons del: subscribe.simps(2))
  next
    case (Cons t' qs)
    show ?thesis
    proof (cases "t' = t")
      case True
      with Cons Cons.prems obtain r2 where r2: "map_of (topics r) t = Some r2" and n: "node_at r2 qs \<noteq> None"
        by (auto split: option.splits)
      from r2 have "child r t = r2" by (simp add: child_def)
      with Cons.IH [OF n] True Cons show ?thesis
        by (simp add: subscribe_Cons update_conv' del: subscribe.simps(2))
    next
      case False
      with Cons Cons.prems show ?thesis
        by (simp add: subscribe_Cons update_conv' del: subscribe.simps(2))
    qed
  qed
qed

lemma registered_unsubscribe:
  "registered (unsubscribe r ch p) c q = (registered r c q \<and> \<not> (c = ch \<and> q = p))"
proof (induction p arbitrary: r q)
  case Nil
  show ?case
    by (cases q) (auto simp: registered_Nil registered_Cons)
next
  case (Cons t ts)
  show ?case
  proof (cases "map_of (topics r) t")
    case None
    then show ?thesis
      by (auto simp: registered_Cons)
  next
    case (Some r2)
    show ?thesis
    proof (cases q)
      case Nil
      then show ?thesis using Some by (simp add: registered_Nil)
    next
      case (Cons t' qs)
      then show ?thesis
        using Some Cons.IH [of r2 qs]
        by (auto simp: registered_Cons update_conv')
    qed
  qed
qed

lemma node_at_unsubscribe:
  "node_at r q \<noteq> None \<Longrightarrow> node_at (unsubscribe r ch p) q \<noteq> None"
proof (induction p arbitrary: r q)
  case Nil
  then show ?case by (cases q) auto
next
  case (Cons t ts)
  show ?case
  proof (cases "map_of (topics r) t")
    case None
    with Cons.prems show ?thesis by simp
  next
    case (Some r2)
    show ?thesis
    proof (cases q)
      case Nil
      then show ?thesis using Some by simp
    next
      case (Cons t' qs)
      then show ?thesis
        using Some Cons.IH [of r2 qs] Cons.prems
        by (auto simp: update_conv' split: option.splits)
    qed
  qed
qed

lemma unsubscribe_not_registered:
  "\<not> registered r ch p \<Longrightarrow> unsubscribe r ch p = r"
proof (induction p arbitrary: r)
  case Nil
  then show ?case by (cases r) (simp add: registered_Nil)
next
  case (Cons t ts)
  show ?case
  proof (cases "map_of (topics r) t")
    case None
    then show ?thesis by simp
  next
    case (Some r2)
    with Cons.prems have "\<not> registered r2 ch ts" by (simp add: registered_Cons)
    from Cons.IH [OF this] Some show ?thesis
      by (cases r) (simp add: update_triv)
  qed
qed

lemma unsubscribe_twice:
  "unsubscribe (unsubscribe r ch p) ch p = unsubscribe r ch p"
  by (rule unsubscribe_not_registered) (simp add: registered_unsubscribe)

lemma well_formed_new_router: "well_formed new_router"
  by (simp add: new_router_def)

lemma well_formed_topics_map_of:
  "well_formed_topics tops \<Longrightarrow> map_of tops t = Some r2 \<Longrightarrow> well_formed r2"
  by (induction tops) (auto split: if_splits)

lemma well_formed_topics_update:
  "well_formed_topics tops \<Longrightarrow> well_formed r2 \<Longrightarrow> well_formed_topics (AList.update t r2 tops)"
  by (induction tops) auto

lemma well_formed_child: "well_formed r \<Longrightarrow> well_formed (child r t)"
  by (cases r) (auto simp: child_def well_formed_new_router split: option.splits dest: well_formed_topics_map_of)

lemma well_formed_subscribe: "well_formed r \<Longrightarrow> well_formed (snd (subscribe r ch p))"
proof (induction p arbitrary: r)
  case Nil
  then show ?case by (cases r) auto
next
  case (Cons t ts)
  from Cons.prems have "well_formed (snd (subscribe (child r t) ch ts))"
    by (intro Cons.IH well_formed_child)
  with Cons.prems show ?case
    by (cases r) (simp add: subscribe_Cons well_formed_topics_update distinct_update del: subscribe.simps(2))
qed

lemma well_formed_unsubscribe: "well_formed r \<Longrightarrow> well_formed (unsubscribe r ch p)"
proof (induction p arbitrary: r)
  case Nil
  then show ?case by (cases r) (auto simp: distinct_removeAll)
next
  case (Cons t ts)
  show ?case
  proof (cases "map_of (topics r) t")
    case None
    with Cons.prems show ?thesis by simp
  next
    case (Some r2)
    with Cons.prems have "well_formed r2" by (cases r) (auto dest: well_formed_topics_map_of)
    from Cons.IH [OF this] Some Cons.prems show ?thesis
      by (cases r) (simp add: well_formed_topics_update distinct_update)
  qed
qed

lemma well_formed_distinct_subscribers: "well_formed r \<Longrightarrow> distinct (subscribers r)"
  by (cases r) simp

subsection \<open>send_each\<close>

lemma try_send_closed: "is_closed (snd (snd (try_send ch v cs))) c = is_closed cs c"
  by (cases ch; cases c) auto

lemma try_send_panic: "fst (try_send ch v cs) = None \<longleftrightarrow> \<not> is_closed cs ch"
  by (cases ch) auto

lemma try_send_offers:
  "\<not> is_closed cs ch \<Longrightarrow> offers (fst (snd (try_send ch v cs))) = [(ch, v)]"
  by (cases ch) auto

lemma try_send_closes: "closes (fst (snd (try_send ch v cs))) = []"
  by (cases ch) auto

lemma offers_append: "offers (xs @ ys) = offers xs @ offers ys"
  by (induction xs rule: offers.induct) auto

lemma closes_append: "closes (xs @ ys) = closes xs @ closes ys"
  by (induction xs rule: closes.induct) auto

lemma send_each_append:
  "send_each (xs @ ys) v cs =
     (case send_each xs v cs of
        (Some p, evs, cs') \<Rightarrow> (Some p, evs, cs')
      | (None, evs, cs') \<Rightarrow>
          (case send_each ys v cs' of (p, evs', cs'') \<Rightarrow> (p, evs @ evs', cs'')))"
  by (induction xs arbitrary: cs) (auto split: prod.splits option.splits)

text \<open>
  The walk of \<open>publish\<close> is one run of sends over the subscribers along the path,
  and every child it stores back is the child it took out.
\<close>

lemma publish_send_each:
  "publish r v p cs =
     (case send_each (path_subscribers r p) v cs of (pn, evs, cs') \<Rightarrow> (pn, evs, r, cs'))"
proof (induction p arbitrary: r cs)
  case Nil
  show ?case by simp
next
  case (Cons t ts)
  show ?case
  proof (cases "map_of (topics r) t")
    case None
    then show ?thesis
      by (auto simp: send_each_append split: prod.splits option.splits)
  next
    case (Some r2)
    then have stored: "Router (subscribers r) (AList.update t r2 (topics r)) = r"
      by (cases r) (simp add: update_triv)
    show ?thesis
      using Some stored
      by (auto simp: send_each_append Cons.IH split: prod.splits option.splits)
  qed
qed

lemma publish_panicked:
  "fst (publish r v p cs) = fst (send_each (path_subscribers r p) v cs)"
  by (simp add: publish_send_each split: prod.splits)

lemma publish_events:
  "fst (snd (publish r v p cs)) = fst (snd (send_each (path_subscribers r p) v cs))"
  by (simp add: publish_send_each split: prod.splits)

lemma publish_router: "fst (snd (snd (publish r v p cs))) = r"
  by (simp add: publish_send_each split: prod.splits)

lemma publish_chans_after:
  "snd (snd (snd (publish r v p cs))) = snd (snd (send_each (path_subscribers r p) v cs))"
  by (simp add: publish_send_each split: prod.splits)

lemma after_offers_0: "after_offers 0 v c = c"
  by (simp add: after_offers_def)

lemma after_offers_add:
  "after_offers m v (after_offers n v c) = after_offers (n + m) v c"
  by (auto simp: after_offers_def min_def replicate_add [symmetric] simp del: replicate_add)

lemma after_offers_closed: "closed (after_offers n v c) = closed c"
  by (simp add: after_offers_def)

lemma after_offers_cap: "cap (after_offers n v c) = cap c"
  by (simp add: after_offers_def)

lemma try_send_chans:
  "\<not> is_closed cs ch \<Longrightarrow>
   snd (snd (try_send ch v cs)) i = after_offers (if ch = Chan i then 1 else 0) v (cs i)"
  by (cases ch) (auto simp: after_offers_def)

lemma send_each_panic:
  "fst (send_each chs v cs) = None \<longleftrightarrow> (\<forall>ch\<in>set chs. \<not> is_closed cs ch)"
proof (induction chs arbitrary: cs)
  case Nil
  show ?case by simp
next
  case (Cons ch chs)
  show ?case
  proof (cases "is_closed cs ch")
    case True
    then have "fst (try_send ch v cs) \<noteq> None" by (simp add: try_send_panic)
    with True show ?thesis by (auto split: prod.splits option.splits)
  next
    case False
    then obtain evs cs' where t: "try_send ch v cs = (None, evs, cs')"
      using try_send_panic [of ch v cs] by (cases "try_send ch v cs") auto
    have c: "is_closed cs' x = is_closed cs x" for x
      using try_send_closed [of ch v cs x] t by simp
    show ?thesis
      using False t Cons.IH [of cs'] by (auto simp: c split: prod.splits)
  qed
qed

lemma send_each_closed:
  "is_closed (snd (snd (send_each chs v cs))) c = is_closed cs c"
proof (induction chs arbitrary: cs)
  case Nil
  show ?case by simp
next
  case (Cons ch chs)
  obtain p evs cs' where t: "try_send ch v cs = (p, evs, cs')"
    by (cases "try_send ch v cs") auto
  have c: "is_closed cs' c = is_closed cs c"
    using try_send_closed [of ch v cs c] t by simp
  show ?case
    using t c Cons.IH [of cs'] by (cases p) (auto split: prod.splits)
qed

lemma send_each_closes: "closes (fst (snd (send_each chs v cs))) = []"
proof (induction chs arbitrary: cs)
  case Nil
  show ?case by simp
next
  case (Cons ch chs)
  obtain p evs cs' where t: "try_send ch v cs = (p, evs, cs')"
    by (cases "try_send ch v cs") auto
  have c: "closes evs = []"
    using try_send_closes [of ch v cs] t by simp
  show ?case
    using t c Cons.IH [of cs'] by (cases p) (auto simp: closes_append split: prod.splits)
qed

text \<open>What a run of sends does, also when it ends in a panic.\<close>

lemma send_each_offers:
  "offers (fst (snd (send_each chs v cs))) =
     map (\<lambda>ch. (ch, v)) (takeWhile (\<lambda>ch. \<not> is_closed cs ch) chs)"
proof (induction chs arbitrary: cs)
  case Nil
  show ?case by simp
next
  case (Cons ch chs)
  show ?case
  proof (cases "is_closed cs ch")
    case True
    then show ?thesis by (cases ch) auto
  next
    case False
    then obtain evs cs' where t: "try_send ch v cs = (None, evs, cs')"
      using try_send_panic [of ch v cs] by (cases "try_send ch v cs") auto
    have c: "is_closed cs' = is_closed cs"
      using try_send_closed [of ch v cs] t by (simp add: fun_eq_iff)
    have o: "offers evs = [(ch, v)]"
      using try_send_offers [OF False, of v] t by simp
    show ?thesis
      using False t o Cons.IH [of cs'] by (auto simp: c offers_append split: prod.splits)
  qed
qed

lemma send_each_chans:
  "snd (snd (send_each chs v cs)) i =
     after_offers (count_list (takeWhile (\<lambda>ch. \<not> is_closed cs ch) chs) (Chan i)) v (cs i)"
proof (induction chs arbitrary: cs)
  case Nil
  show ?case by (simp add: after_offers_0)
next
  case (Cons ch chs)
  show ?case
  proof (cases "is_closed cs ch")
    case True
    then show ?thesis by (cases ch) (auto simp: after_offers_0)
  next
    case False
    then obtain evs cs' where t: "try_send ch v cs = (None, evs, cs')"
      using try_send_panic [of ch v cs] by (cases "try_send ch v cs") auto
    have c: "is_closed cs' = is_closed cs"
      using try_send_closed [of ch v cs] t by (simp add: fun_eq_iff)
    have s: "cs' i = after_offers (if ch = Chan i then 1 else 0) v (cs i)"
      using try_send_chans [OF False, of v i] t by simp
    show ?thesis
      using False t Cons.IH [of cs'] by (auto simp: c s after_offers_add split: prod.splits)
  qed
qed

subsection \<open>The subscribers along a path\<close>

lemma set_path_subscribers:
  "ch \<in> set (path_subscribers r p) \<longleftrightarrow> (\<exists>q. prefix q p \<and> registered r ch q)"
proof (induction p arbitrary: r)
  case Nil
  show ?case by (simp add: registered_Nil)
next
  case (Cons t ts)
  show ?case
  proof (cases "map_of (topics r) t")
    case None
    then show ?thesis
      by (auto simp: registered_Nil registered_Cons prefix_Cons)
  next
    case (Some r2)
    then show ?thesis
      using Cons.IH [of r2]
      by (auto simp: registered_Nil registered_Cons prefix_Cons)
  qed
qed

lemma count_list_distinct:
  "distinct xs \<Longrightarrow> count_list xs x = (if x \<in> set xs then 1 else 0)"
  by (induction xs) auto

lemma count_path_subscribers:
  "well_formed r \<Longrightarrow>
   count_list (path_subscribers r p) ch = length (filter (registered r ch) (prefixes p))"
proof (induction p arbitrary: r)
  case Nil
  then show ?case
    by (simp add: count_list_distinct well_formed_distinct_subscribers registered_Nil)
next
  case (Cons t ts)
  have here: "count_list (subscribers r) ch = (if registered r ch [] then 1 else 0)"
    using Cons.prems by (simp add: count_list_distinct well_formed_distinct_subscribers registered_Nil)
  show ?case
  proof (cases "map_of (topics r) t")
    case None
    then show ?thesis
      using here by (simp add: filter_map comp_def registered_Cons)
  next
    case (Some r2)
    with Cons.prems have "well_formed r2" by (cases r) (auto dest: well_formed_topics_map_of)
    from Cons.IH [OF this] Some here show ?thesis
      by (simp add: filter_map comp_def registered_Cons)
  qed
qed

subsection \<open>close\<close>

lemma close_each_append:
  "close_each (xs @ ys) cl cs =
     (case close_each xs cl cs of
        (Some p, evs, cl', cs') \<Rightarrow> (Some p, evs, cl', cs')
      | (None, evs, cl', cs') \<Rightarrow>
          (case close_each ys cl' cs' of
             (p, evs', cl'', cs'') \<Rightarrow> (p, evs @ evs', cl'', cs'')))"
  by (induction xs arbitrary: cl cs) (auto split: prod.splits option.splits)

lemma close_close_each:
  "(\<forall>cl cs. close r cl (cs :: 'v chans) = close_each (handles r) cl cs)"
  "(\<forall>cl cs. close_topics tops cl (cs :: 'v chans) = close_each (handles_topics tops) cl cs)"
  by (induction r and tops rule: handles_handles_topics.induct)
     (auto simp: close_each_append split: prod.splits option.splits)

lemma close_chan_ok:
  "ch \<noteq> NilChan \<Longrightarrow> \<not> is_closed cs ch \<Longrightarrow>
   \<exists>cs'. close_chan ch cs = (None, [Closed ch], cs') \<and>
         (\<forall>c. is_closed cs' c = (is_closed cs c \<or> c = ch)) \<and>
         (\<forall>i. buf (cs' i) = buf (cs i) \<and> cap (cs' i) = cap (cs i))"
proof (cases ch)
  case NilChan
  assume "ch \<noteq> NilChan"
  with NilChan show ?thesis by simp
next
  case (Chan j)
  assume "\<not> is_closed cs ch"
  with Chan have o: "\<not> closed (cs j)" by simp
  have "is_closed (cs(j := (cs j)\<lparr>closed := True\<rparr>)) c = (is_closed cs c \<or> c = Chan j)" for c
    by (cases c) auto
  with Chan o show ?thesis by auto
qed

lemma close_each_ok:
  "\<forall>ch\<in>set chs - cl. ch \<noteq> NilChan \<and> \<not> is_closed cs ch \<Longrightarrow>
   \<exists>evs cs'. close_each chs cl cs = (None, evs, cl \<union> set chs, cs') \<and>
     (\<forall>c. count_list (closes evs) c = (if c \<in> set chs - cl then 1 else 0)) \<and>
     offers evs = [] \<and>
     (\<forall>c. is_closed cs' c = (is_closed cs c \<or> c \<in> set chs - cl)) \<and>
     (\<forall>i. buf (cs' i) = buf (cs i) \<and> cap (cs' i) = cap (cs i))"
proof (induction chs arbitrary: cl cs)
  case Nil
  show ?case by simp
next
  case (Cons ch chs)
  show ?case
  proof (cases "ch \<in> cl")
    case True
    from Cons.prems have "\<forall>c\<in>set chs - cl. c \<noteq> NilChan \<and> \<not> is_closed cs c" by auto
    from Cons.IH [OF this] obtain evs cs' where
      r: "close_each chs cl cs = (None, evs, cl \<union> set chs, cs')"
      and n: "\<forall>c. count_list (closes evs) c = (if c \<in> set chs - cl then 1 else 0)"
      and o: "offers evs = []"
      and c: "\<forall>c. is_closed cs' c = (is_closed cs c \<or> c \<in> set chs - cl)"
      and b: "\<forall>i. buf (cs' i) = buf (cs i) \<and> cap (cs' i) = cap (cs i)"
      by blast
    have e: "cl \<union> set (ch # chs) = cl \<union> set chs" using True by auto
    have s: "set (ch # chs) - cl = set chs - cl" using True by auto
    show ?thesis
      unfolding e s using True r n o c b by simp
  next
    case False
    with Cons.prems have ok: "ch \<noteq> NilChan" "\<not> is_closed cs ch" by auto
    from close_chan_ok [OF ok] obtain cs1 where
      c1: "close_chan ch cs = (None, [Closed ch], cs1)"
      and cl1: "\<forall>c. is_closed cs1 c = (is_closed cs c \<or> c = ch)"
      and b1: "\<forall>i. buf (cs1 i) = buf (cs i) \<and> cap (cs1 i) = cap (cs i)"
      by blast
    from Cons.prems cl1 have "\<forall>c\<in>set chs - insert ch cl. c \<noteq> NilChan \<and> \<not> is_closed cs1 c"
      by auto
    from Cons.IH [OF this] obtain evs cs' where
      r: "close_each chs (insert ch cl) cs1 = (None, evs, insert ch cl \<union> set chs, cs')"
      and n: "\<forall>c. count_list (closes evs) c = (if c \<in> set chs - insert ch cl then 1 else 0)"
      and o: "offers evs = []"
      and c: "\<forall>c. is_closed cs' c = (is_closed cs1 c \<or> c \<in> set chs - insert ch cl)"
      and b: "\<forall>i. buf (cs' i) = buf (cs1 i) \<and> cap (cs' i) = cap (cs1 i)"
      by blast
    have e: "cl \<union> set (ch # chs) = insert ch cl \<union> set chs" by auto
    have r': "close_each (ch # chs) cl cs = (None, Closed ch # evs, cl \<union> set (ch # chs), cs')"
      unfolding e using False c1 r by simp
    have n': "\<forall>c. count_list (closes (Closed ch # evs)) c = (if c \<in> set (ch # chs) - cl then 1 else 0)"
      using n False by auto
    have c': "\<forall>c. is_closed cs' c = (is_closed cs c \<or> c \<in> set (ch # chs) - cl)"
      using c cl1 False by auto
    have b': "\<forall>i. buf (cs' i) = buf (cs i) \<and> cap (cs' i) = cap (cs i)"
      using b b1 by simp
    from r' n' o c' b' show ?thesis by simp
  qed
qed

subsection \<open>All handles of a router\<close>

lemma handles_topics_mem:
  "(t, r2) \<in> set tops \<Longrightarrow> ch \<in> set (handles r2) \<Longrightarrow> ch \<in> set (handles_topics tops)"
  by (induction tops) auto

lemma handles_subscribers: "set (subscribers r) \<subseteq> set (handles r)"
  by (cases r) simp

lemma registered_handles: "registered r ch q \<Longrightarrow> ch \<in> set (handles r)"
proof (induction q arbitrary: r)
  case Nil
  then show ?case using handles_subscribers [of r] by (auto simp: registered_Nil)
next
  case (Cons t ts)
  from Cons.prems obtain r2 where r2: "map_of (topics r) t = Some r2" and reg: "registered r2 ch ts"
    by (auto simp: registered_Cons split: option.splits)
  from r2 have "(t, r2) \<in> set (topics r)" by (rule map_of_SomeD)
  with Cons.IH [OF reg] show ?case
    by (cases r) (auto dest: handles_topics_mem)
qed

lemma handles_registered:
  "well_formed r \<Longrightarrow> ch \<in> set (handles r) \<Longrightarrow> \<exists>q. registered r ch q"
  "well_formed_topics tops \<Longrightarrow> distinct (map fst tops) \<Longrightarrow> ch \<in> set (handles_topics tops) \<Longrightarrow>
     \<exists>t r2 q. map_of tops t = Some r2 \<and> registered r2 ch q"
proof (induction r and tops rule: handles_handles_topics.induct)
  case (1 subs tops)
  from "1.prems" consider "ch \<in> set subs" | "ch \<in> set (handles_topics tops)" by auto
  then show ?case
  proof cases
    case 1
    then have "registered (Router subs tops) ch []" by (simp add: registered_Nil)
    then show ?thesis ..
  next
    case 2
    with "1.IH" "1.prems" obtain t r2 q where "map_of tops t = Some r2" "registered r2 ch q"
      by auto
    then have "registered (Router subs tops) ch (t # q)" by (simp add: registered_Cons)
    then show ?thesis ..
  qed
next
  case 2
  then show ?case by simp
next
  case (3 e es)
  from "3.prems" consider "ch \<in> set (handles (snd e))" | "ch \<in> set (handles_topics es)" by auto
  then show ?case
  proof cases
    case 1
    with "3.IH"(1) "3.prems" obtain q where "registered (snd e) ch q" by auto
    then have "map_of (e # es) (fst e) = Some (snd e) \<and> registered (snd e) ch q"
      by (cases e) simp
    then show ?thesis by blast
  next
    case 2
    with "3.IH"(2) "3.prems" obtain t r2 q where m: "map_of es t = Some r2" and g: "registered r2 ch q"
      by auto
    from m have "t \<in> fst ` set es" by (metis map_of_eq_None_iff option.distinct(1))
    moreover from "3.prems" have "fst e \<notin> fst ` set es" by simp
    ultimately have "t \<noteq> fst e" by blast
    with m have "map_of (e # es) t = Some r2" by (cases e) simp
    with g show ?thesis by blast
  qed
qed

subsection \<open>publish\<close>

lemma no_closed_on_path:
  "(\<forall>q c. prefix q p \<longrightarrow> registered r c q \<longrightarrow> \<not> is_closed cs c) \<longleftrightarrow>
   (\<forall>c\<in>set (path_subscribers r p). \<not> is_closed cs c)"
  by (simp only: set_path_subscribers Ball_def) blast

lemma takeWhile_all: "\<forall>x\<in>set xs. P x \<Longrightarrow> takeWhile P xs = xs"
  by (simp add: takeWhile_eq_all_conv)

lemma publish_panic:
  "fst (publish r v p cs) = None \<longleftrightarrow>
   (\<forall>q c. prefix q p \<longrightarrow> registered r c q \<longrightarrow> \<not> is_closed cs c)"
  by (simp only: publish_panicked send_each_panic no_closed_on_path)


lemma publish_offers:
  "\<forall>q c. prefix q p \<longrightarrow> registered r c q \<longrightarrow> \<not> is_closed cs c \<Longrightarrow>
   offers (fst (snd (publish r v p cs))) = map (\<lambda>ch. (ch, v)) (path_subscribers r p)"
  by (simp only: no_closed_on_path publish_events send_each_offers takeWhile_all)

lemma publish_chans:
  "\<forall>q c. prefix q p \<longrightarrow> registered r c q \<longrightarrow> \<not> is_closed cs c \<Longrightarrow>
   snd (snd (snd (publish r v p cs))) i =
     after_offers (count_list (path_subscribers r p) (Chan i)) v (cs i)"
  by (simp only: no_closed_on_path publish_chans_after send_each_chans takeWhile_all)

lemma count_list_map_pair: "count_list (map (\<lambda>ch. (ch, v)) xs) (c, v) = count_list xs c"
  by (induction xs) auto

lemma count_list_pos: "x \<in> set xs \<Longrightarrow> 0 < count_list xs x"
  by (induction xs) auto

subsection \<open>The example states\<close>

lemma example_chans_open: "\<not> is_closed example_chans c"
  by (cases c) (simp_all add: example_chans_def open_chans_def)

lemma example_router2_handles: "set (handles example_router2) = {Chan 0, Chan 1, Chan 2, Chan 3}"
  by (auto simp: example_router2_def)

section \<open>Prefix delivery\<close>




section \<open>Duplicate subscriptions\<close>

text \<open>
  C2: \<open>subscribe\<close> of handle \<open>ch\<close> at path \<open>p\<close> returns \<open>DuplicateSubscription\<close>
  when \<open>ch\<close> is registered at exactly \<open>p\<close> and \<open>nil\<close> otherwise, whatever other
  paths \<open>ch\<close> is registered at; and a second subscribe of \<open>ch\<close> at \<open>p\<close> right
  after is a duplicate.
\<close>

theorem subscribe_duplicate_iff_registered:
  "fst (subscribe r ch p) = (if registered r ch p then Some DuplicateSubscription else None) \<and>
   fst (subscribe (snd (subscribe r ch p)) ch p) = Some DuplicateSubscription"
  by (simp add: subscribe_error registered_subscribe del: subscribe.simps)

text \<open>
  Channel 0 is registered at the root and at \<open>[a]\<close> of the example router: subscribing
  it at \<open>[a]\<close> again is refused, subscribing it at \<open>[a, b]\<close> succeeds.
\<close>

theorem subscribe_duplicate_iff_registered_witness:
  "registered example_router (Chan 0) [''a''] \<and>
   fst (subscribe example_router (Chan 0) [''a'']) = Some DuplicateSubscription \<and>
   \<not> registered example_router (Chan 0) [''a'', ''b''] \<and>
   fst (subscribe example_router (Chan 0) [''a'', ''b'']) = None"
proof -
  have a: "registered example_router (Chan 0) [''a'']"
    by (simp add: registered_def example_router_def)
  have b: "\<not> registered example_router (Chan 0) [''a'', ''b'']"
    by (simp add: registered_def example_router_def)
  from a b
    subscribe_duplicate_iff_registered [of example_router "Chan 0" "[''a'']"]
    subscribe_duplicate_iff_registered [of example_router "Chan 0" "[''a'', ''b'']"]
  show ?thesis by simp
qed

text \<open>
  C8: when \<open>subscribe\<close> returns \<open>DuplicateSubscription\<close>, the router after the call
  is the router before it, and the node at the path existed already.
\<close>

theorem subscribe_duplicate_unchanged:
  "fst (subscribe r ch p) = Some DuplicateSubscription \<Longrightarrow>
   snd (subscribe r ch p) = r \<and> node_at r p \<noteq> None"
proof -
  assume "fst (subscribe r ch p) = Some DuplicateSubscription"
  then have reg: "registered r ch p"
    by (simp add: subscribe_error split: if_splits)
  then have "node_at r p \<noteq> None"
    by (auto simp: registered_def split: option.splits)
  with reg show ?thesis
    by (simp add: subscribe_duplicate_router)
qed

text \<open>
  Channel 2 is registered at \<open>[a, b]\<close> of the example router: subscribing it there
  again is refused and gives back the example router.
\<close>

theorem subscribe_duplicate_unchanged_witness:
  "fst (subscribe example_router (Chan 2) [''a'', ''b'']) = Some DuplicateSubscription \<and>
   snd (subscribe example_router (Chan 2) [''a'', ''b'']) = example_router \<and>
   node_at example_router [''a'', ''b''] \<noteq> None"
proof -
  have h: "fst (subscribe example_router (Chan 2) [''a'', ''b'']) = Some DuplicateSubscription"
    by (simp add: example_router_def)
  from h subscribe_duplicate_unchanged [OF h] show ?thesis by simp
qed

section \<open>Unsubscribe\<close>

text \<open>
  C5: \<open>unsubscribe\<close> has no failing step. When the path leaves the trie, or the handle
  is not in the subscriber set of the node the path ends at, the router is unchanged;
  and unsubscribing a second time changes nothing more.
\<close>

theorem unsubscribe_total_idempotent:
  "(node_at r p = None \<longrightarrow> unsubscribe r ch p = r) \<and>
   (\<forall>n. node_at r p = Some n \<and> ch \<notin> set (subscribers n) \<longrightarrow> unsubscribe r ch p = r) \<and>
   unsubscribe (unsubscribe r ch p) ch p = unsubscribe r ch p \<and>
   fst (serve (Unsubscribe ch p) r cs) = None"
  by (auto simp: unsubscribe_twice registered_def intro!: unsubscribe_not_registered)

text \<open>
  The example router has no node at \<open>[x]\<close>, and channel 0 is not a subscriber at
  \<open>[c]\<close>: both unsubscribes give back the example router. Unsubscribing channel 3
  at \<open>[c]\<close> twice is the same as once.
\<close>

theorem unsubscribe_total_idempotent_witness:
  "node_at example_router [''x''] = None \<and>
   unsubscribe example_router (Chan 0) [''x''] = example_router \<and>
   node_at example_router [''c''] = Some (Router [Chan 3] []) \<and> Chan 0 \<notin> set [Chan 3] \<and>
   unsubscribe example_router (Chan 0) [''c''] = example_router \<and>
   unsubscribe (unsubscribe example_router (Chan 3) [''c'']) (Chan 3) [''c''] =
     unsubscribe example_router (Chan 3) [''c'']"
proof -
  have a: "node_at example_router [''x''] = None"
    by (simp add: example_router_def)
  have b: "node_at example_router [''c''] = Some (Router [Chan 3] [])"
    by (simp add: example_router_def)
  from a b
    unsubscribe_total_idempotent [of example_router "[''x'']" "Chan 0"]
    unsubscribe_total_idempotent [of example_router "[''c'']" "Chan 0"]
    unsubscribe_total_idempotent [of example_router "[''c'']" "Chan 3"]
  show ?thesis by simp
qed

section \<open>The router under the broker loop\<close>

lemma serve_router:
  "fst (snd (snd (serve c rr cs))) =
     (case c of Subscribe ch p \<Rightarrow> snd (subscribe rr ch p)
      | Unsubscribe ch p \<Rightarrow> unsubscribe rr ch p
      | _ \<Rightarrow> rr)"
proof (cases c)
  case (Publish v p)
  obtain pn evs rr' cs' where s: "publish rr v p cs = (pn, evs, rr', cs')"
    by (cases "publish rr v p cs") auto
  with publish_router [of rr v p cs] have "rr' = rr" by simp
  with Publish s show ?thesis by (cases pn) simp_all
qed (auto split: prod.splits)

lemma serve_node_at:
  "node_at rr q \<noteq> None \<Longrightarrow> node_at (fst (snd (snd (serve c rr cs)))) q \<noteq> None"
  by (cases c) (simp_all only: serve_router command.case node_at_subscribe node_at_unsubscribe
      not_False_eq_True)

lemma serve_well_formed:
  "well_formed rr \<Longrightarrow> well_formed (fst (snd (snd (serve c rr cs))))"
  by (cases c) (simp_all only: serve_router command.case well_formed_subscribe
      well_formed_unsubscribe)

lemma loop_Cons:
  "loop (c # cmds) rr cs =
     (if c = Exit then serve Exit rr cs
      else case serve c rr cs of
             (Some p, evs, rr', cs') \<Rightarrow> (Some p, evs, rr', cs')
           | (None, evs, rr', cs') \<Rightarrow>
               (case loop cmds rr' cs' of (p, evs', rr'', cs'') \<Rightarrow> (p, evs @ evs', rr'', cs'')))"
  by (cases c) simp_all

lemma loop_invariant:
  assumes step: "\<And>c rr (cs :: 'v chans). P rr \<Longrightarrow> P (fst (snd (snd (serve c rr cs))))"
  shows "P rr \<Longrightarrow> P (fst (snd (snd (loop cmds rr (cs :: 'v chans)))))"
proof (induction cmds arbitrary: rr cs)
  case Nil
  then show ?case by simp
next
  case (Cons c cmds)
  obtain pn evs rr' cs' where s: "serve c rr cs = (pn, evs, rr', cs')"
    by (cases "serve c rr cs") auto
  from step [OF Cons.prems, of c cs] s have p': "P rr'" by simp
  show ?case
  proof (cases "c = Exit \<or> pn \<noteq> None")
    case True
    with s p' show ?thesis by (auto simp: loop_Cons simp del: serve.simps)
  next
    case False
    with s Cons.IH [OF p', of cs'] show ?thesis
      by (auto simp: loop_Cons split: prod.splits simp del: serve.simps)
  qed
qed

lemma loop_node_at:
  "node_at rr q \<noteq> None \<Longrightarrow> node_at (fst (snd (snd (loop cmds rr cs)))) q \<noteq> None"
  by (rule loop_invariant [where P = "\<lambda>r. node_at r q \<noteq> None"]) (rule serve_node_at)

lemma loop_well_formed:
  "well_formed rr \<Longrightarrow> well_formed (fst (snd (snd (loop cmds rr cs))))"
  by (rule loop_invariant [where P = well_formed]) (rule serve_well_formed)

lemma Process_well_formed: "well_formed (fst (snd (snd (Process cmds cs))))"
  unfolding Process_def by (rule loop_well_formed) (rule well_formed_new_router)

lemma subscribe_creates_node: "node_at (snd (subscribe r ch p)) p \<noteq> None"
proof -
  have "registered (snd (subscribe r ch p)) ch p"
    by (simp add: registered_subscribe)
  then show ?thesis
    by (auto simp: registered_def split: option.splits)
qed

text \<open>
  C6: the node at the path of a subscribe exists after it, and a node that exists
  still exists after every sequence of commands the loop serves, whatever is left in
  its subscriber set.
\<close>

theorem nodes_never_destroyed:
  "node_at (snd (subscribe r ch p)) p \<noteq> None \<and>
   (node_at rr q \<noteq> None \<longrightarrow> node_at (fst (snd (snd (loop cmds rr cs)))) q \<noteq> None)"
  using subscribe_creates_node [of r ch p] loop_node_at [of rr q cmds cs] by blast

text \<open>
  Channel 3 is the only subscriber at \<open>[c]\<close>. After it unsubscribes, and after a
  publish and a subscribe elsewhere, the node at \<open>[c]\<close> is still there, empty.
\<close>

theorem nodes_never_destroyed_witness:
  "node_at example_router [''c''] \<noteq> None \<and>
   node_at (fst (snd (snd (loop [Unsubscribe (Chan 3) [''c''], Publish 7 [''c''],
      Subscribe (Chan 4) [''d'']] example_router example_chans))))
     [''c''] = Some (Router [] [])"
proof -
  have h: "node_at example_router [''c''] \<noteq> None"
    by (simp add: example_router_def)
  have "node_at (fst (snd (snd (loop [Unsubscribe (Chan 3) [''c''], Publish 7 [''c''],
      Subscribe (Chan 4) [''d'']] example_router example_chans))))
     [''c''] = Some (Router [] [])"
    by (simp add: example_router_def example_chans_def open_chans_def new_router_def)
  with h nodes_never_destroyed [of example_router "Chan 3" "[''c'']" example_router "[''c'']"
      "[Unsubscribe (Chan 3) [''c''], Publish 7 [''c''], Subscribe (Chan 4) [''d'']]" example_chans]
  show ?thesis by simp
qed

text \<open>
  C9: for every value, path and state of the channels, the router that \<open>publish\<close>
  leaves behind is the router it was called on, node for node and subscriber set for
  subscriber set, also when a send panics on the way; and so is the router of the
  loop after it has served a publish. At each node of the walk the child that comes
  back from the inner call is the child that was looked up, so storing it back under
  its key changes nothing.
\<close>

theorem publish_router_unchanged:
  "fst (snd (snd (publish r v p cs))) = r \<and>
   fst (snd (snd (serve (Publish v p) r cs))) = r"
proof -
  have walk: "fst (snd (snd (publish r v p cs))) = r" for r and cs :: "'a chans"
  proof (induction p arbitrary: r cs)
    case Nil
    show ?case by (simp split: prod.splits)
  next
    case (Cons t ts)
    obtain pn evs cs' where s: "send_each (subscribers r) v cs = (pn, evs, cs')"
      by (cases "send_each (subscribers r) v cs") auto
    show ?case
    proof (cases pn)
      case (Some x)
      with s show ?thesis by simp
    next
      case None
      show ?thesis
      proof (cases "map_of (topics r) t")
        case None
        with s \<open>pn = None\<close> show ?thesis by simp
      next
        case (Some r2)
        obtain pn' evs' r2' cs'' where i: "publish r2 v ts cs' = (pn', evs', r2', cs'')"
          by (cases "publish r2 v ts cs'") auto
        with Cons.IH [of r2 cs'] have same: "r2' = r2" by simp
        from Some have "Router (subscribers r) (AList.update t r2 (topics r)) = r"
          by (cases r) (simp add: update_triv)
        with s \<open>pn = None\<close> Some i same show ?thesis by simp
      qed
    qed
  qed
  obtain pn evs rr' cs' where s: "publish r v p cs = (pn, evs, rr', cs')"
    by (cases "publish r v p cs") auto
  with walk [of r cs] have "rr' = r" by simp
  with s have "fst (snd (snd (serve (Publish v p) r cs))) = r"
    by (cases pn) simp_all
  with walk show ?thesis by simp
qed

text \<open>
  A publish at \<open>[a, b]\<close> walks three nodes of the example router and hands it back
  as it was; so does a publish at \<open>[c, d]\<close>, which stops at \<open>[c]\<close> for want of a
  child, and one that panics at the root on a closed channel 0.
\<close>

theorem publish_router_unchanged_witness:
  "fst (snd (snd (publish example_router 7 [''a'', ''b''] example_chans))) = example_router \<and>
   fst (snd (snd (serve (Publish 7 [''c'', ''d'']) example_router example_chans))) = example_router \<and>
   fst (publish example_router 7 [''a'']
          (example_chans(0 := \<lparr>buf = [], cap = 1, closed = True\<rparr>))) = Some SendOnClosedChannel \<and>
   fst (snd (snd (publish example_router 7 [''a'']
          (example_chans(0 := \<lparr>buf = [], cap = 1, closed = True\<rparr>))))) = example_router"
proof -
  have "fst (publish example_router 7 [''a'']
          (example_chans(0 := \<lparr>buf = [], cap = 1, closed = True\<rparr>))) = Some SendOnClosedChannel"
    by (simp add: example_router_def)
  with publish_router_unchanged [of example_router 7 "[''a'', ''b'']" example_chans]
    publish_router_unchanged [of example_router 7 "[''c'', ''d'']" example_chans]
    publish_router_unchanged [of example_router 7 "[''a'']"
      "example_chans(0 := \<lparr>buf = [], cap = 1, closed = True\<rparr>)"]
  show ?thesis by simp
qed

section \<open>Closing channels\<close>

lemma publish_closes: "closes (fst (snd (publish r v p cs))) = []"
  by (simp only: publish_events send_each_closes)

lemma publish_closed: "is_closed (snd (snd (snd (publish r v p cs)))) c = is_closed cs c"
  by (simp only: publish_chans_after send_each_closed)

lemma serve_closes:
  "cmd \<noteq> Exit \<Longrightarrow> closes (fst (snd (serve cmd rr cs))) = []"
proof (cases cmd)
  case (Publish v p)
  obtain pn evs rr' cs' where s: "publish rr v p cs = (pn, evs, rr', cs')"
    by (cases "publish rr v p cs") auto
  with publish_closes [of rr v p cs] have "closes evs = []" by simp
  with Publish s show ?thesis by (cases pn) (simp_all add: closes_append)
qed (auto split: prod.splits)

lemma serve_closed:
  "cmd \<noteq> Exit \<Longrightarrow> is_closed (snd (snd (snd (serve cmd rr cs)))) c = is_closed cs c"
proof (cases cmd)
  case (Publish v p)
  obtain pn evs rr' cs' where s: "publish rr v p cs = (pn, evs, rr', cs')"
    by (cases "publish rr v p cs") auto
  with publish_closed [of rr v p cs c] have "is_closed cs' c = is_closed cs c" by simp
  with Publish s show ?thesis by (cases pn) simp_all
qed (auto split: prod.splits)

text \<open>
  C7: serving an unsubscribe answers the caller and does nothing else to any channel;
  in the router it removes the registration of the handle at the given path
  and no other. No command but the exit signal closes a channel.
\<close>

theorem unsubscribe_never_closes:
  "serve (Unsubscribe ch p) rr cs = (None, [Done None], unsubscribe rr ch p, cs) \<and>
   (\<forall>c q. registered (unsubscribe rr ch p) c q \<longleftrightarrow> registered rr c q \<and> \<not> (c = ch \<and> q = p)) \<and>
   (cmd \<noteq> Exit \<longrightarrow>
      closes (fst (snd (serve cmd rr cs))) = [] \<and>
      (\<forall>c. is_closed (snd (snd (snd (serve cmd rr cs)))) c = is_closed cs c))"
  using serve_closes [of cmd rr cs] serve_closed [of cmd rr cs]
  by (simp add: registered_unsubscribe)

text \<open>
  Channel 3 unsubscribes at \<open>[c]\<close> of the example router: nothing is closed,
  channel 3 is still open, and it is no longer registered there.
\<close>

theorem unsubscribe_never_closes_witness:
  "Unsubscribe (Chan 3) [''c''] \<noteq> (Exit :: nat command) \<and>
   closes (fst (snd (serve (Unsubscribe (Chan 3) [''c'']) example_router example_chans))) = [] \<and>
   \<not> is_closed (snd (snd (snd (serve (Unsubscribe (Chan 3) [''c'']) example_router example_chans))))
        (Chan 3) \<and>
   \<not> registered (unsubscribe example_router (Chan 3) [''c'']) (Chan 3) [''c'']"
  using unsubscribe_never_closes [of "Chan 3" "[''c'']" example_router example_chans
      "Unsubscribe (Chan 3) [''c'']"]
  by (simp add: example_chans_def open_chans_def)

lemma close_ok:
  assumes "\<forall>ch\<in>set (handles r). ch \<noteq> NilChan \<and> \<not> is_closed cs ch"
  shows "\<exists>evs cl cs'. close r {} cs = (None, evs, cl, cs') \<and>
     (\<forall>c. count_list (closes evs) c = (if c \<in> set (handles r) then 1 else 0)) \<and>
     (\<forall>c. is_closed cs' c = (is_closed cs c \<or> c \<in> set (handles r)))"
proof -
  from assms have "\<forall>ch\<in>set (handles r) - {}. ch \<noteq> NilChan \<and> \<not> is_closed cs ch" by simp
  from close_each_ok [OF this] show ?thesis
    by (simp only: close_close_each Diff_empty) blast
qed

lemma handles_iff_registered:
  "well_formed r \<Longrightarrow> c \<in> set (handles r) \<longleftrightarrow> (\<exists>q. registered r c q)"
  by (blast intro: registered_handles dest: handles_registered(1))

section \<open>Shutdown\<close>

text \<open>
  Claim C3 as stated, for every router: each registered handle is closed exactly once
  on shutdown. It fails when \<open>close\<close> panics on the way. Here the \<open>nil\<close> channel is
  registered at the root: closing it panics, and channel 1, registered at \<open>[a]\<close>, is
  never closed.
\<close>

theorem close_once_counterexample:
  "registered (Router [NilChan] [(''a'', Router [Chan 1] [])]) (Chan 1) [''a''] \<and>
   fst (serve Exit (Router [NilChan] [(''a'', Router [Chan 1] [])]) open_chans)
     = Some CloseOfNilChannel \<and>
   count_list (closes (fst (snd (serve Exit (Router [NilChan] [(''a'', Router [Chan 1] [])])
     open_chans)))) (Chan 1) = 0"
  by (simp add: registered_def open_chans_def)

text \<open>
  C3, amended: when every handle registered in the router is a channel (not \<open>nil\<close>)
  that is still open, shutdown does not panic and closes every handle that is
  registered at some path exactly once, however many paths it is registered at, and
  no other channel. The router is any router without duplicate keys, as every
  router of the loop is (\<open>Process_well_formed\<close>).
\<close>

theorem close_once:
  assumes "well_formed rr"
    and "\<forall>q c. registered rr c q \<longrightarrow> c \<noteq> NilChan \<and> \<not> is_closed cs c"
  shows "fst (serve Exit rr cs) = None \<and>
    (\<forall>c. count_list (closes (fst (snd (serve Exit rr cs)))) c =
          (if \<exists>q. registered rr c q then 1 else 0)) \<and>
    (\<forall>c. is_closed (snd (snd (snd (serve Exit rr cs)))) c \<longleftrightarrow>
          is_closed cs c \<or> (\<exists>q. registered rr c q))"
proof -
  note h = handles_iff_registered [OF assms(1)]
  from assms(2) have "\<forall>ch\<in>set (handles rr). ch \<noteq> NilChan \<and> \<not> is_closed cs ch"
    using h by blast
  from close_ok [OF this] obtain evs cl cs' where
    c: "close rr {} cs = (None, evs, cl, cs')"
    and n: "\<forall>c. count_list (closes evs) c = (if c \<in> set (handles rr) then 1 else 0)"
    and k: "\<forall>c. is_closed cs' c = (is_closed cs c \<or> c \<in> set (handles rr))"
    by blast
  from c n k show ?thesis
    by (simp add: h)
qed

text \<open>
  In the example router without the \<open>nil\<close> handle, channel 0 is registered at the
  root and at \<open>[a]\<close>; shutdown closes it once, and channel 7, registered nowhere, not
  at all.
\<close>

theorem close_once_witness:
  "well_formed example_router2 \<and>
   NilChan \<notin> set (handles example_router2) \<and>
   filter (is_closed example_chans) (handles example_router2) = [] \<and>
   registered example_router2 (Chan 0) [] \<and> registered example_router2 (Chan 0) [''a''] \<and>
   fst (serve Exit example_router2 example_chans) = None \<and>
   count_list (closes (fst (snd (serve Exit example_router2 example_chans)))) (Chan 0) = 1 \<and>
   count_list (closes (fst (snd (serve Exit example_router2 example_chans)))) (Chan 7) = 0"
proof -
  have w: "well_formed example_router2"
    by (simp add: example_router2_def)
  have h: "\<forall>q c. registered example_router2 c q \<longrightarrow> c \<noteq> NilChan \<and> \<not> is_closed example_chans c"
  proof (intro allI impI)
    fix q c
    assume "registered example_router2 c q"
    then have "c \<in> set (handles example_router2)" by (rule registered_handles)
    then have "c \<noteq> NilChan" by (auto simp: example_router2_handles)
    then show "c \<noteq> NilChan \<and> \<not> is_closed example_chans c"
      by (simp add: example_chans_open)
  qed
  have a: "registered example_router2 (Chan 0) []" "registered example_router2 (Chan 0) [''a'']"
    by (simp_all add: registered_def example_router2_def)
  have n: "count_list (closes (fst (snd (serve Exit example_router2 example_chans)))) (Chan 7) = 0"
    by (simp add: example_router2_def example_chans_def open_chans_def)
  from close_once [OF w h] a have
    "fst (serve Exit example_router2 example_chans) = None \<and>
     count_list (closes (fst (snd (serve Exit example_router2 example_chans)))) (Chan 0) = 1"
    by auto
  moreover have "NilChan \<notin> set (handles example_router2)"
    by (simp add: example_router2_handles)
  moreover have "filter (is_closed example_chans) (handles example_router2) = []"
    by (simp add: example_chans_open)
  ultimately show ?thesis using w a n by blast
qed

section \<open>Best-effort delivery\<close>

lemma after_offers_full:
  "cap c \<le> length (buf c) \<Longrightarrow> after_offers n v c = c"
  by (simp add: after_offers_def)

lemma after_offers_room:
  "length (buf c) < cap c \<Longrightarrow> 0 < n \<Longrightarrow> prefix (buf c @ [v]) (buf (after_offers n v c))"
proof -
  assume "length (buf c) < cap c" "0 < n"
  then obtain k where "min n (cap c - length (buf c)) = Suc k"
    by (cases "min n (cap c - length (buf c))") (auto simp: min_def split: if_splits)
  then show ?thesis
    by (simp add: after_offers_def)
qed

lemma try_send_not_ready:
  "\<not> ready cs c \<Longrightarrow>
   \<not> ready (snd (snd (try_send ch v cs))) c \<and> Sent c w \<notin> set (fst (snd (try_send ch v cs)))"
  by (cases ch; cases c) auto

lemma send_each_not_ready:
  "\<not> ready cs c \<Longrightarrow> Sent c w \<notin> set (fst (snd (send_each chs v cs)))"
proof (induction chs arbitrary: cs)
  case Nil
  show ?case by simp
next
  case (Cons ch chs)
  obtain pn evs cs' where t: "try_send ch v cs = (pn, evs, cs')"
    by (cases "try_send ch v cs") auto
  with try_send_not_ready [OF Cons.prems, of ch v w]
  have n: "\<not> ready cs' c" and e: "Sent c w \<notin> set evs" by simp_all
  from Cons.IH [OF n] t e show ?case
    by (cases pn) (auto split: prod.splits)
qed

lemma publish_not_ready:
  "\<not> ready cs c \<Longrightarrow> Sent c w \<notin> set (fst (snd (publish r v p cs)))"
  by (simp only: publish_events send_each_not_ready not_False_eq_True)

text \<open>
  Claim C4 as stated, for every publish: the publish completes. It fails when a
  subscriber's channel has been closed: the send panics. Here channel 0, the only
  subscriber, is closed.
\<close>

theorem publish_completes_counterexample:
  "fst (publish (Router [Chan 0] []) (7 :: nat) []
         (open_chans(0 := \<lparr>buf = [], cap = 1, closed = True\<rparr>)))
   = Some SendOnClosedChannel"
  by (simp add: open_chans_def)

text \<open>
  C4, amended: when no handle registered at a prefix of the published path is a
  closed channel, the publish completes without a panic; a channel that cannot take
  the value at once (it is full, or the handle is \<open>nil\<close>) is left exactly as it was
  and is sent nothing; and every channel that is registered at a prefix of the path
  and has room gets the value, put right behind what it already held. A channel
  that is registered at no prefix of the path is left as it was.
\<close>

theorem publish_best_effort:
  assumes "\<forall>q c. prefix q p \<longrightarrow> registered r c q \<longrightarrow> \<not> is_closed cs c"
  shows "fst (publish r v p cs) = None \<and>
    (\<forall>c. \<not> ready cs c \<longrightarrow>
         (\<forall>w. Sent c w \<notin> set (fst (snd (publish r v p cs)))) \<and>
         (\<forall>i. c = Chan i \<longrightarrow> snd (snd (snd (publish r v p cs))) i = cs i)) \<and>
    (\<forall>i q. ready cs (Chan i) \<and> prefix q p \<and> registered r (Chan i) q \<longrightarrow>
         prefix (buf (cs i) @ [v]) (buf (snd (snd (snd (publish r v p cs))) i))) \<and>
    (\<forall>i. (\<forall>q. prefix q p \<longrightarrow> \<not> registered r (Chan i) q) \<longrightarrow>
         snd (snd (snd (publish r v p cs))) i = cs i)"
proof (intro conjI allI impI)
  show "fst (publish r v p cs) = None"
    using assms by (simp only: publish_panic)
next
  fix c w
  assume "\<not> ready cs c"
  then show "Sent c w \<notin> set (fst (snd (publish r v p cs)))"
    by (rule publish_not_ready)
next
  fix c i
  assume n: "\<not> ready cs c" and c: "c = Chan i"
  show "snd (snd (snd (publish r v p cs))) i = cs i"
  proof (cases "closed (cs i)")
    case True
    then have "is_closed cs (Chan i)" by simp
    with assms have "\<forall>q. prefix q p \<longrightarrow> \<not> registered r (Chan i) q" by blast
    then have "Chan i \<notin> set (path_subscribers r p)"
      by (simp only: set_path_subscribers) blast
    then have "count_list (path_subscribers r p) (Chan i) = 0"
      by (simp add: count_list_0_iff)
    then show ?thesis
      by (simp only: publish_chans [OF assms] after_offers_0)
  next
    case False
    with n c have "cap (cs i) \<le> length (buf (cs i))" by simp
    then show ?thesis
      by (simp only: publish_chans [OF assms] after_offers_full)
  qed
next
  fix i q
  assume a: "ready cs (Chan i) \<and> prefix q p \<and> registered r (Chan i) q"
  then have "Chan i \<in> set (path_subscribers r p)"
    by (simp only: set_path_subscribers) blast
  then have "0 < count_list (path_subscribers r p) (Chan i)"
    by (rule count_list_pos)
  moreover from a have "length (buf (cs i)) < cap (cs i)" by simp
  ultimately show "prefix (buf (cs i) @ [v]) (buf (snd (snd (snd (publish r v p cs))) i))"
    by (simp only: publish_chans [OF assms] after_offers_room)
next
  fix i
  assume "\<forall>q. prefix q p \<longrightarrow> \<not> registered r (Chan i) q"
  then have "Chan i \<notin> set (path_subscribers r p)"
    by (simp only: set_path_subscribers) blast
  then have "count_list (path_subscribers r p) (Chan i) = 0"
    by (simp add: count_list_0_iff)
  then show "snd (snd (snd (publish r v p cs))) i = cs i"
    by (simp only: publish_chans [OF assms] after_offers_0)
qed

text \<open>
  Publishing 7 at \<open>[a, b]\<close> in the example: channel 1 is full and the \<open>nil\<close> handle
  is never ready, both registered at prefixes; the publish completes, channel 1
  still holds only 5, and channel 2, registered at \<open>[a, b]\<close>, has got 7.
\<close>

theorem publish_best_effort_witness:
  "filter (is_closed example_chans) (path_subscribers example_router [''a'', ''b'']) = [] \<and>
   \<not> ready example_chans (Chan 1) \<and> registered example_router (Chan 1) [''a''] \<and>
   \<not> ready example_chans NilChan \<and> registered example_router NilChan [] \<and>
   ready example_chans (Chan 2) \<and> registered example_router (Chan 2) [''a'', ''b''] \<and>
   fst (publish example_router 7 [''a'', ''b''] example_chans) = None \<and>
   snd (snd (snd (publish example_router 7 [''a'', ''b''] example_chans))) 1 = example_chans 1 \<and>
   buf (snd (snd (snd (publish example_router 7 [''a'', ''b''] example_chans))) 1) = [5] \<and>
   buf (snd (snd (snd (publish example_router 7 [''a'', ''b''] example_chans))) 2) = [7]"
proof -
  have h: "\<forall>q c. prefix q [''a'', ''b''] \<longrightarrow> registered example_router c q \<longrightarrow>
      \<not> is_closed example_chans c"
    by (simp add: example_chans_open)
  have a: "\<not> ready example_chans (Chan 1)" "\<not> ready example_chans NilChan"
    "ready example_chans (Chan 2)"
    by (simp_all add: example_chans_def open_chans_def)
  have b: "registered example_router (Chan 1) [''a'']" "registered example_router NilChan []"
    "registered example_router (Chan 2) [''a'', ''b'']"
    by (simp_all add: registered_def example_router_def)
  have c: "buf (example_chans 1) = [5]" "buf (example_chans 2) = []"
    by (simp_all add: example_chans_def open_chans_def)
  have d: "buf (snd (snd (snd (publish example_router 7 [''a'', ''b''] example_chans))) 2) = [7]"
    by (simp add: example_router_def example_chans_def open_chans_def)
  from publish_best_effort [OF h, of 7] a b c have
    "fst (publish example_router 7 [''a'', ''b''] example_chans) = None \<and>
     snd (snd (snd (publish example_router 7 [''a'', ''b''] example_chans))) 1 = example_chans 1"
    by blast
  moreover have "filter (is_closed example_chans) (path_subscribers example_router [''a'', ''b'']) = []"
    by (simp add: example_chans_open)
  ultimately show ?thesis using a b c d by simp
qed

section \<open>One attempt per registration\<close>

text \<open>
  Claim C10 as stated, for every publish: a handle registered at \<open>k\<close> prefixes of the
  path gets \<open>k\<close> delivery attempts. It fails when a send panics before the walk is
  over. Here channel 1 is registered at two prefixes of \<open>[a, b]\<close>, and the closed
  channel 0 at the root ends the publish before any attempt on channel 1.
\<close>

theorem publish_attempts_counterexample:
  "well_formed (Router [Chan 0] [(''a'', Router [Chan 1] [(''b'', Router [Chan 1] [])])]) \<and>
   length (filter (registered (Router [Chan 0] [(''a'', Router [Chan 1] [(''b'', Router [Chan 1] [])])])
       (Chan 1)) (prefixes [''a'', ''b''])) = 2 \<and>
   count_list (offers (fst (snd (publish
       (Router [Chan 0] [(''a'', Router [Chan 1] [(''b'', Router [Chan 1] [])])])
       (7 :: nat) [''a'', ''b''] (open_chans(0 := \<lparr>buf = [], cap = 1, closed = True\<rparr>))))))
     (Chan 1, 7) = 0"
  by (simp add: registered_def open_chans_def)

text \<open>
  C10, amended: when no handle registered at a prefix of the published path is a
  closed channel, a handle gets one delivery attempt of the value for each prefix of
  the path at which it is registered: \<open>k\<close> attempts for \<open>k\<close> registrations, with no
  deduplication. The router is any router without duplicate keys, as every router of
  the loop is (\<open>Process_well_formed\<close>).
\<close>

theorem publish_attempts_per_registration:
  assumes "well_formed r"
    and "\<forall>q c. prefix q p \<longrightarrow> registered r c q \<longrightarrow> \<not> is_closed cs c"
  shows "count_list (offers (fst (snd (publish r v p cs)))) (ch, v) =
         length (filter (registered r ch) (prefixes p))"
  by (simp only: publish_offers [OF assms(2)] count_list_map_pair
      count_path_subscribers [OF assms(1)])

text \<open>
  Channel 0 is registered at the root and at \<open>[a]\<close> of the example router: a publish
  at \<open>[a, b]\<close> makes two attempts on it. The first fills its one slot, the second is
  dropped.
\<close>

theorem publish_attempts_per_registration_witness:
  "well_formed example_router \<and>
   filter (is_closed example_chans) (path_subscribers example_router [''a'', ''b'']) = [] \<and>
   length (filter (registered example_router (Chan 0)) (prefixes [''a'', ''b''])) = 2 \<and>
   count_list (offers (fst (snd (publish example_router 7 [''a'', ''b''] example_chans))))
     (Chan 0, 7) = 2 \<and>
   fst (snd (publish example_router 7 [''a'', ''b''] example_chans)) =
     [Sent (Chan 0) 7, Dropped NilChan 7, Dropped (Chan 1) 7, Dropped (Chan 0) 7, Sent (Chan 2) 7]"
proof -
  have w: "well_formed example_router"
    by (simp add: example_router_def)
  have h: "\<forall>q c. prefix q [''a'', ''b''] \<longrightarrow> registered example_router c q \<longrightarrow>
      \<not> is_closed example_chans c"
    by (simp add: example_chans_open)
  have k: "length (filter (registered example_router (Chan 0)) (prefixes [''a'', ''b''])) = 2"
    by (simp add: registered_def example_router_def)
  have e: "fst (snd (publish example_router 7 [''a'', ''b''] example_chans)) =
     [Sent (Chan 0) 7, Dropped NilChan 7, Dropped (Chan 1) 7, Dropped (Chan 0) 7, Sent (Chan 2) 7]"
    by (simp add: example_router_def example_chans_def open_chans_def)
  from publish_attempts_per_registration [OF w h, of 7 "Chan 0"] k
  have "count_list (offers (fst (snd (publish example_router 7 [''a'', ''b''] example_chans))))
     (Chan 0, 7) = 2"
    by simp
  moreover have "filter (is_closed example_chans) (path_subscribers example_router [''a'', ''b'']) = []"
    by (simp add: example_chans_open)
  ultimately show ?thesis using w k e by blast
qed

end
